theory Spec2Isabelle
  imports Complex_Main
begin

section \<open>Role names\<close>

text \<open>
  A role name is a Python \<open>str\<close>, a sequence of Unicode code points: it is modelled as
  the list of its code points. \<open>ustr\<close> gives the \<open>str\<close> that a literal of 8-bit
  characters denotes.
\<close>

type_synonym ustring = "nat list"

definition ustr :: "string \<Rightarrow> ustring" where
  "ustr s = map of_char s"

definition hyphen :: nat where
  "hyphen = of_char CHR ''-''"

definition newline :: nat where
  "newline = of_char CHR 0x0A"

definition is_digit :: "nat \<Rightarrow> bool" where
  \<comment> \<open>the ten ASCII digits\<close>
  "is_digit c = (c \<in> set (ustr ''0123456789''))"

definition strip_chars :: "nat \<Rightarrow> bool" where
  \<comment> \<open>the character set handed to \<open>rstrip\<close>: \<open>'-0123456789'\<close>\<close>
  "strip_chars c = (c \<in> set (ustr ''-0123456789''))"

text \<open>
  In a \<open>str\<close> pattern \<open>\d\<close> matches every Unicode decimal digit (category \<open>Nd\<close>), not
  only the ASCII ones. The table gives the decimal digits of the Unicode character
  database 14.0.0, as Python 3.11 has it, in runs: first code point and length.
\<close>

definition decimal_runs :: "(nat \<times> nat) list" where
  "decimal_runs =
     [(0x30, 10), (0x660, 10), (0x6F0, 10), (0x7C0, 10), (0x966, 10), (0x9E6, 10),
      (0xA66, 10), (0xAE6, 10), (0xB66, 10), (0xBE6, 10), (0xC66, 10), (0xCE6, 10),
      (0xD66, 10), (0xDE6, 10), (0xE50, 10), (0xED0, 10), (0xF20, 10), (0x1040, 10),
      (0x1090, 10), (0x17E0, 10), (0x1810, 10), (0x1946, 10), (0x19D0, 10), (0x1A80, 10),
      (0x1A90, 10), (0x1B50, 10), (0x1BB0, 10), (0x1C40, 10), (0x1C50, 10), (0xA620, 10),
      (0xA8D0, 10), (0xA900, 10), (0xA9D0, 10), (0xA9F0, 10), (0xAA50, 10), (0xABF0, 10),
      (0xFF10, 10), (0x104A0, 10), (0x10D30, 10), (0x11066, 10), (0x110F0, 10),
      (0x11136, 10), (0x111D0, 10), (0x112F0, 10), (0x11450, 10), (0x114D0, 10),
      (0x11650, 10), (0x116C0, 10), (0x11730, 10), (0x118E0, 10), (0x11950, 10),
      (0x11C50, 10), (0x11D50, 10), (0x11DA0, 10), (0x16A60, 10), (0x16AC0, 10),
      (0x16B50, 10), (0x1D7CE, 50), (0x1E140, 10), (0x1E2F0, 10), (0x1E950, 10),
      (0x1FBF0, 10)]"

definition is_decimal :: "nat \<Rightarrow> bool" where
  "is_decimal c = list_ex (\<lambda>(first, n). first \<le> c \<and> c < first + n) decimal_runs"

definition rstrip :: "(nat \<Rightarrow> bool) \<Rightarrow> ustring \<Rightarrow> ustring" where
  \<comment> \<open>\<open>str.rstrip(chars)\<close>: drop the longest suffix made of characters of the set\<close>
  "rstrip P s = rev (dropWhile P (rev s))"

definition ends_dash_digits :: "ustring \<Rightarrow> bool" where
  \<comment> \<open>\<open>-\d+\<close> matched right at the end of the string\<close>
  "ends_dash_digits s =
     (let r = rev s in
      takeWhile is_decimal r \<noteq> [] \<and>
      (case dropWhile is_decimal r of [] \<Rightarrow> False | c # _ \<Rightarrow> c = hyphen))"

definition re_search_dash_digits :: "ustring \<Rightarrow> bool" where
  \<comment> \<open>\<open>re.search(r'-\d+$', s)\<close>: without \<open>re.MULTILINE\<close> the anchor \<open>$\<close> matches at the
      end of the string and also just before a newline that ends the string\<close>
  "re_search_dash_digits s =
     (ends_dash_digits s \<or>
      (s \<noteq> [] \<and> last s = newline \<and> ends_dash_digits (butlast s)))"

definition simplify_service_name :: "ustring \<Rightarrow> ustring" where
  "simplify_service_name service =
     (if re_search_dash_digits service then rstrip strip_chars service else service)"

text \<open>The shapes the specification speaks of: a name that ends in a hyphen followed by
  one or more decimal digits; and one suffix, a hyphen followed by one or more ASCII
  digits.\<close>

definition dash_digits_suffix :: "ustring \<Rightarrow> bool" where
  "dash_digits_suffix s =
     (\<exists>p ds. s = p @ hyphen # ds \<and> ds \<noteq> [] \<and> list_all is_decimal ds)"

definition dash_number :: "ustring \<Rightarrow> bool" where
  "dash_number x = (\<exists>ds. x = hyphen # ds \<and> ds \<noteq> [] \<and> list_all is_digit ds)"

section \<open>Result cache\<close>

text \<open>
  \<open>self.service_entries\<close> is a \<open>defaultdict(set)\<close>: a dictionary from role names to
  sets of role names in which reading an absent key stores the empty set under it.
\<close>

type_synonym entries = "ustring \<rightharpoonup> ustring set"

datatype error = ValueError | UnpicklingError | RequestError | RecursionError

datatype payload = RoleList "ustring list" | ServiceEntries entries

text \<open>
  The contents of a cache file: either what \<open>pickle.dump\<close> wrote for a payload, which
  \<open>pickle.load\<close> gives back, or bytes that do not unpickle. A pickle is never empty.
\<close>

datatype blob = Pickled payload | Garbage "nat list"

record cache_file =
  content :: blob
  mtime :: real

type_synonym files = "string \<rightharpoonup> cache_file"

definition getsize :: "blob \<Rightarrow> nat" where
  "getsize b = (case b of Pickled _ \<Rightarrow> 1 | Garbage bytes \<Rightarrow> length bytes)"

definition truthy :: "payload \<Rightarrow> bool" where
  \<comment> \<open>Python truth value of a list or of a dictionary: it is not empty\<close>
  "truthy data = (case data of RoleList rs \<Rightarrow> rs \<noteq> [] | ServiceEntries m \<Rightarrow> m \<noteq> Map.empty)"

definition cache_file_name :: "string \<Rightarrow> error + string" where
  "cache_file_name cache_type =
     (if cache_type = ''roles'' then Inr ''roles.txt''
      else if cache_type = ''service_entries'' then Inr ''service_entries.txt''
      else Inl ValueError)"

definition cache_read :: "real \<Rightarrow> string \<Rightarrow> files \<Rightarrow> error + payload option" where
  \<comment> \<open>the second half of \<open>cache\<close>: no data was given, or the data was falsy\<close>
  "cache_read now fname fs =
     (case fs fname of
        None \<Rightarrow> Inr None
      | Some f \<Rightarrow>
          if getsize (content f) > 0 \<and> mtime f > now - 3600
          then (case content f of Pickled d \<Rightarrow> Inr (Some d) | Garbage _ \<Rightarrow> Inl UnpicklingError)
          else Inr None)"

definition cache :: "real \<Rightarrow> string \<Rightarrow> payload option \<Rightarrow> files \<Rightarrow> error + (payload option \<times> files)" where
  \<comment> \<open>\<open>now\<close> is \<open>time.time()\<close>, in seconds; a written file gets it as modification
      time, and writing the file is taken to succeed\<close>
  "cache now cache_type data fs =
     (case cache_file_name cache_type of
        Inl e \<Rightarrow> Inl e
      | Inr fname \<Rightarrow>
          (case (case data of None \<Rightarrow> None | Some d \<Rightarrow> if truthy d then Some d else None) of
             Some d \<Rightarrow> Inr (None, fs(fname \<mapsto> \<lparr>content = Pickled d, mtime = now\<rparr>))
           | None \<Rightarrow>
               (case cache_read now fname fs of
                  Inl e \<Rightarrow> Inl e
                | Inr r \<Rightarrow> Inr (r, fs))))"

section \<open>Collector\<close>

text \<open>
  What one request to a paginated endpoint gives: \<open>Failed\<close> when \<open>requests.get\<close> or the
  decoding of its answer raises, else the page's items and its \<open>meta.next\<close> cursor,
  the address of the next page (\<open>None\<close> when there is none). The answers of an endpoint
  are the list of what successive requests give.
\<close>

datatype 'a response = Failed | Page "'a list" "ustring option"

definition has_next :: "ustring option \<Rightarrow> bool" where
  \<comment> \<open>the truth value of \<open>results['meta']['next']\<close>: a cursor, and not the empty string\<close>
  "has_next cursor = (case cursor of None \<Rightarrow> False | Some url \<Rightarrow> url \<noteq> [])"

record grapher =
  roles :: "payload option"
  service_entries :: entries
  cache_files :: files

text \<open>
  \<open>get_roles_list\<close> has no \<open>return\<close> with a value: every call yields Python's \<open>None\<close>,
  the first component of the result. An exception of \<open>requests.get\<close> or of \<open>cache\<close> is
  not caught.
\<close>

fun get_roles_list ::
  "real \<Rightarrow> ustring response list \<Rightarrow> bool \<Rightarrow> grapher \<Rightarrow> error + (ustring list option \<times> grapher)"
and get_roles_pages ::
  "real \<Rightarrow> ustring response list \<Rightarrow> grapher \<Rightarrow> error + (ustring list option \<times> grapher)"
where
  "get_roles_list now responses refresh self =
     (case (if \<not> refresh then cache now ''roles'' None (cache_files self)
            else Inr (None, cache_files self)) of
        Inl e \<Rightarrow> Inl e
      | Inr (Some cached_data, _) \<Rightarrow>
          if truthy cached_data then Inr (None, self\<lparr>roles := Some cached_data\<rparr>)
          else get_roles_pages now responses self
      | Inr (None, _) \<Rightarrow> get_roles_pages now responses self)"
| "get_roles_pages now [] self = Inl RequestError"
| "get_roles_pages now (Failed # rest) self = Inl RequestError"
| "get_roles_pages now (Page role_names cursor # rest) self =
     (case (if has_next cursor then get_roles_list now rest True self else Inr (None, self)) of
        Inl e \<Rightarrow> Inl e
      | Inr (more_data, self1) \<Rightarrow>
          (let all_roles = role_names @ (case more_data of None \<Rightarrow> [] | Some xs \<Rightarrow> xs) in
           case cache now ''roles'' (Some (RoleList all_roles)) (cache_files self1) of
             Inl e \<Rightarrow> Inl e
           | Inr (_, fs) \<Rightarrow>
               Inr (None, self1\<lparr>roles := Some (RoleList all_roles), cache_files := fs\<rparr>)))"

text \<open>
  A service entry: its \<open>service_name\<close> and the backends under
  \<open>service_configuration.backends\<close>. \<open>None\<close> stands for a key that is missing (the source
  gets \<open>KeyError\<close>): the list itself, or the \<open>service_name\<close> of one backend.
\<close>

record service_entry =
  service_name :: ustring
  backends :: "ustring option list option"

definition backend_names :: "service_entry \<Rightarrow> ustring list option" where
  \<comment> \<open>the list comprehension; it is built whole before any backend is added\<close>
  "backend_names service = (case backends service of None \<Rightarrow> None | Some xs \<Rightarrow> those xs)"

definition add_backend :: "ustring \<Rightarrow> ustring \<Rightarrow> entries \<Rightarrow> entries" where
  \<comment> \<open>\<open>self.service_entries[role].add(backend)\<close>\<close>
  "add_backend role backend se =
     se(role \<mapsto> insert backend (case se role of None \<Rightarrow> {} | Some bs \<Rightarrow> bs))"

definition add_service :: "service_entry \<Rightarrow> entries \<Rightarrow> entries" where
  "add_service service se =
     (let role = simplify_service_name (service_name service) in
      case backend_names service of
        None \<Rightarrow> se
      | Some bs \<Rightarrow> fold (add_backend role) bs se)"

fun fetch_service_entries :: "service_entry response list \<Rightarrow> entries \<Rightarrow> entries" where
  "fetch_service_entries [] se = se"
| "fetch_service_entries (Failed # rest) se = se"
| "fetch_service_entries (Page items cursor # rest) se =
     (let se' = fold add_service items se in
      if has_next cursor then fetch_service_entries rest se' else se')"

record firewall_rule =
  ingress_role :: ustring

definition add_rule :: "ustring \<Rightarrow> firewall_rule \<Rightarrow> entries \<Rightarrow> entries" where
  "add_rule source_role rule se =
     (let destination_role = simplify_service_name (ingress_role rule) in
      add_backend destination_role source_role se)"

text \<open>
  The inner loop of \<open>fetch_firewall_rules\<close> for one role taken from the queue. \<open>url\<close> is
  the worker's variable of that name: the template \<open>.../Roles/%s/Rules\<close> at first, and
  after a page with a cursor the cursor, which the next request formats with the role
  again. \<open>percent url role\<close> stands for Python's \<open>url % role\<close>: the address to ask, or
  \<open>None\<close> when the operator raises, as it does for a text without a conversion. The
  flag of the result is \<open>True\<close> when the role's pages ran out (\<open>q.task_done()\<close>), \<open>False\<close>
  when the formatting or the request raised: the role goes back on the queue and the
  worker returns. The worker keeps \<open>url\<close> for its next role, so it is returned too.
\<close>

fun fetch_role_rules ::
  "(ustring \<Rightarrow> ustring \<Rightarrow> ustring option) \<Rightarrow> ustring \<Rightarrow> ustring \<Rightarrow>
   firewall_rule response list \<Rightarrow> entries \<Rightarrow> bool \<times> ustring \<times> entries" where
  "fetch_role_rules percent url source_role [] se = (False, url, se)"
| "fetch_role_rules percent url source_role (Failed # rest) se = (False, url, se)"
| "fetch_role_rules percent url source_role (Page items cursor # rest) se =
     (case percent url source_role of
        None \<Rightarrow> (False, url, se)
      | Some _ \<Rightarrow>
          (let se' = fold (add_rule source_role) items se in
           case cursor of
             None \<Rightarrow> (True, url, se')
           | Some next_url \<Rightarrow>
               if next_url \<noteq> [] then fetch_role_rules percent next_url source_role rest se'
               else (True, url, se')))"

definition get_backends :: "ustring \<Rightarrow> entries \<Rightarrow> ustring set \<times> entries" where
  "get_backends service se =
     (let service = simplify_service_name service in
      case se service of
        Some found \<Rightarrow> (found, se)
      | None \<Rightarrow> ({}, se(service \<mapsto> {})))"

section \<open>Graph builder\<close>

text \<open>
  A \<open>networkx.DiGraph\<close>: its nodes and its directed edges, each in insertion order and
  without repetition.
\<close>

record digraph =
  nodes :: "ustring list"
  edges :: "(ustring \<times> ustring) list"

definition empty_graph :: digraph where
  "empty_graph = \<lparr>nodes = [], edges = []\<rparr>"

definition has_edge :: "ustring \<Rightarrow> ustring \<Rightarrow> digraph \<Rightarrow> bool" where
  "has_edge u v g = ((u, v) \<in> set (edges g))"

definition add_node :: "ustring \<Rightarrow> digraph \<Rightarrow> digraph" where
  "add_node n g = (if n \<in> set (nodes g) then g else g\<lparr>nodes := nodes g @ [n]\<rparr>)"

definition add_edge :: "ustring \<Rightarrow> ustring \<Rightarrow> digraph \<Rightarrow> digraph" where
  "add_edge u v g =
     (let g' = add_node v (add_node u g) in
      if has_edge u v g' then g' else g'\<lparr>edges := edges g' @ [(u, v)]\<rparr>)"

definition remove_node :: "ustring \<Rightarrow> digraph \<Rightarrow> digraph" where
  \<comment> \<open>the node goes, and every edge into it or out of it; \<open>clean_graph\<close> removes only
      nodes that it has just listed from the graph, so the node is there\<close>
  "remove_node n g =
     \<lparr>nodes = removeAll n (nodes g),
      edges = filter (\<lambda>(u, v). u \<noteq> n \<and> v \<noteq> n) (edges g)\<rparr>"

definition degree :: "digraph \<Rightarrow> ustring \<Rightarrow> nat" where
  \<comment> \<open>in-degree plus out-degree, as \<open>DiGraph.degree\<close> counts\<close>
  "degree g n =
     length (filter (\<lambda>(u, v). v = n) (edges g)) + length (filter (\<lambda>(u, v). u = n) (edges g))"

fun re_match_lit :: "ustring \<Rightarrow> ustring \<Rightarrow> bool" where
  "re_match_lit [] s = True"
| "re_match_lit (p # ps) [] = False"
| "re_match_lit (p # ps) (c # cs) = (p = c \<and> re_match_lit ps cs)"

fun re_search_lit :: "ustring \<Rightarrow> ustring \<Rightarrow> bool" where
  "re_search_lit pat [] = re_match_lit pat []"
| "re_search_lit pat (c # cs) = (re_match_lit pat (c # cs) \<or> re_search_lit pat cs)"

definition dbre_search :: "ustring \<Rightarrow> bool" where
  \<comment> \<open>\<open>dbre = re.compile('mysql|redis')\<close>, \<open>dbre.search(s)\<close>\<close>
  "dbre_search s = (re_search_lit (ustr ''mysql'') s \<or> re_search_lit (ustr ''redis'') s)"

text \<open>
  The \<open>for\<close> loop of \<open>build_graph\<close> runs over a Python set, whose order the language
  leaves open: \<open>iter\<close> gives the order in which a set is run through. \<open>depth\<close> is the
  number of nested calls the interpreter still allows; past it Python raises
  \<open>RecursionError\<close>.
\<close>

type_synonym iteration = "ustring set \<Rightarrow> ustring list"

fun build_graph ::
  "iteration \<Rightarrow> nat \<Rightarrow> ustring \<Rightarrow> digraph option \<Rightarrow> entries \<Rightarrow> error + (digraph \<times> entries)"
and build_graph_loop ::
  "iteration \<Rightarrow> nat \<Rightarrow> ustring \<Rightarrow> ustring list \<Rightarrow> digraph \<Rightarrow> entries \<Rightarrow> error + (digraph \<times> entries)"
where
  "build_graph iter 0 service graph se = Inl RecursionError"
| "build_graph iter (Suc depth) service graph se =
     (let graph = (case graph of None \<Rightarrow> empty_graph | Some g \<Rightarrow> g);
          (dependencies, se') = get_backends service se
      in build_graph_loop iter depth service (iter dependencies) graph se')"
| "build_graph_loop iter depth service [] graph se = Inr (graph, se)"
| "build_graph_loop iter depth service (dependency # rest) graph se =
     (if dependency = service then build_graph_loop iter depth service rest graph se
      else if has_edge service dependency graph \<or> has_edge dependency service graph
        then build_graph_loop iter depth service rest graph se
      else if dbre_search service \<or> dbre_search dependency
        then build_graph_loop iter depth service rest graph se
      else (case build_graph iter depth dependency (Some (add_edge service dependency graph)) se of
              Inl e \<Rightarrow> Inl e
            | Inr (graph', se') \<Rightarrow> build_graph_loop iter depth service rest graph' se'))"

text \<open>The graphs that repeated calls of \<open>build_graph\<close> build, starting from the empty
  graph and the adjacency relation \<open>se0\<close>, as \<open>main\<close> does over its seed roles.\<close>

inductive built :: "iteration \<Rightarrow> entries \<Rightarrow> digraph \<times> entries \<Rightarrow> bool"
  for iter :: iteration and se0 :: entries where
  built_start: "built iter se0 (empty_graph, se0)"
| built_step: "built iter se0 (g, se) \<Longrightarrow> build_graph iter depth seed (Some g) se = Inr (g', se')
     \<Longrightarrow> built iter se0 (g', se')"

section \<open>Graph pruner\<close>

definition remove_above :: "digraph \<Rightarrow> int \<Rightarrow> digraph" where
  \<comment> \<open>the first loop of \<open>clean_graph\<close>; the list is built before a node is removed\<close>
  "remove_above graph max_connections =
     (let nodes_to_remove = [node \<leftarrow> nodes graph. int (degree graph node) > max_connections]
      in fold remove_node nodes_to_remove graph)"

definition remove_upto :: "digraph \<Rightarrow> int \<Rightarrow> digraph" where
  \<comment> \<open>the second loop\<close>
  "remove_upto graph min_connections =
     (let nodes_to_remove = [node \<leftarrow> nodes graph. int (degree graph node) \<le> min_connections]
      in fold remove_node nodes_to_remove graph)"

definition clean_graph :: "digraph \<Rightarrow> int \<Rightarrow> int \<Rightarrow> digraph" where
  "clean_graph graph min_connections max_connections =
     remove_upto (remove_above graph max_connections) min_connections"

section \<open>The specification's notions\<close>

text \<open>The adjacency relation read as a set of edges: \<open>(a, b)\<close> when \<open>b\<close> is in the set
  stored under \<open>a\<close>; and the set stored under a role, empty when there is none.\<close>

definition adjacency :: "entries \<Rightarrow> (ustring \<times> ustring) set" where
  "adjacency se = {(a, b). \<exists>bs. se a = Some bs \<and> b \<in> bs}"

definition backends_of :: "entries \<Rightarrow> ustring \<Rightarrow> ustring set" where
  "backends_of se role = (case se role of None \<Rightarrow> {} | Some bs \<Rightarrow> bs)"

definition normalized :: "ustring \<Rightarrow> bool" where
  "normalized s = (simplify_service_name s = s)"

definition contains :: "ustring \<Rightarrow> ustring \<Rightarrow> bool" where
  "contains marker s = (\<exists>before after. s = before @ marker @ after)"

definition no_self_loop :: "digraph \<Rightarrow> bool" where
  "no_self_loop g = (\<forall>a. (a, a) \<notin> set (edges g))"

definition no_antiparallel :: "digraph \<Rightarrow> bool" where
  "no_antiparallel g = (\<forall>a b. a \<noteq> b \<longrightarrow> \<not> ((a, b) \<in> set (edges g) \<and> (b, a) \<in> set (edges g)))"

definition no_database_edge :: "digraph \<Rightarrow> bool" where
  "no_database_edge g =
     (\<forall>(a, b) \<in> set (edges g).
        \<not> contains (ustr ''mysql'') a \<and> \<not> contains (ustr ''redis'') a \<and>
        \<not> contains (ustr ''mysql'') b \<and> \<not> contains (ustr ''redis'') b)"

definition admissible :: "digraph \<Rightarrow> bool" where
  \<comment> \<open>the three conditions on one edge list, with the source's own tests\<close>
  "admissible g =
     (\<forall>(a, b) \<in> set (edges g).
        a \<noteq> b \<and> (b, a) \<notin> set (edges g) \<and> \<not> dbre_search a \<and> \<not> dbre_search b)"

text \<open>The graph \<open>g\<close> without the nodes of \<open>R\<close> and without the edges that touch them;
  the nodes of degree above a bound, and those of degree up to a bound.\<close>

definition without :: "digraph \<Rightarrow> ustring set \<Rightarrow> digraph" where
  "without g R =
     \<lparr>nodes = [n \<leftarrow> nodes g. n \<notin> R], edges = [(u, v) \<leftarrow> edges g. u \<notin> R \<and> v \<notin> R]\<rparr>"

definition exceeding :: "digraph \<Rightarrow> int \<Rightarrow> ustring set" where
  "exceeding g max_degree = {n \<in> set (nodes g). int (degree g n) > max_degree}"

definition not_exceeding :: "digraph \<Rightarrow> int \<Rightarrow> ustring set" where
  "not_exceeding g min_degree = {n \<in> set (nodes g). int (degree g n) \<le> min_degree}"

text \<open>What bounds the depth of \<open>build_graph\<close>: the roles that occur as a backend, and
  the edges that calls on the roles of \<open>N\<close> can add.\<close>

definition targets :: "entries \<Rightarrow> ustring set" where
  "targets se = (\<Union>role. backends_of se role)"

definition candidates :: "entries \<Rightarrow> ustring set \<Rightarrow> (ustring \<times> ustring) set" where
  "candidates se N = {(s, d). s \<in> N \<and> d \<in> backends_of se (simplify_service_name s)}"

section \<open>Examples\<close>

text \<open>The adjacency relation that \<open>tests.py\<close> sets up.\<close>

definition test_entries :: entries where
  "test_entries = [ustr ''main-svc'' \<mapsto> {ustr ''first-dep'', ustr ''second-dep''}]"

definition two_cycle :: entries where
  "two_cycle = [ustr ''A'' \<mapsto> {ustr ''B''}, ustr ''B'' \<mapsto> {ustr ''A''}]"

definition in_order :: "ustring list \<Rightarrow> iteration" where
  \<comment> \<open>run through a set in the order of a given list\<close>
  "in_order xs S = filter (\<lambda>x. x \<in> S) xs"

definition hub :: digraph where
  "hub = \<lparr>nodes = [ustr ''X'', ustr ''Y'', ustr ''A'', ustr ''B'', ustr ''C'', ustr ''D''],
          edges = [(ustr ''X'', ustr ''Y''), (ustr ''X'', ustr ''A''), (ustr ''B'', ustr ''X''), (ustr ''A'', ustr ''B''), (ustr ''C'', ustr ''D'')]\<rparr>"

section \<open>Normalisation\<close>

lemma ustr_eq [simp]: "ustr s = ustr t \<longleftrightarrow> s = t"
  unfolding ustr_def by (rule inj_map_eq_map) (simp add: inj_def)

lemmas char_eval = ustr_def hyphen_def newline_def is_digit_def strip_chars_def
  is_decimal_def decimal_runs_def

lemma is_digit_strip_chars: "is_digit c \<Longrightarrow> strip_chars c"
  by (auto simp: is_digit_def strip_chars_def ustr_def)

lemma hyphen_strip_chars: "strip_chars hyphen"
  by (simp add: char_eval)

lemma is_digit_range: "is_digit c \<Longrightarrow> 48 \<le> c \<and> c < 58"
  by (auto simp: is_digit_def ustr_def)

lemma is_digit_decimal: "is_digit c \<Longrightarrow> is_decimal c"
  using is_digit_range [of c] by (simp add: is_decimal_def decimal_runs_def)

lemma dash_not_digit: "\<not> is_decimal hyphen"
  by (simp add: char_eval)

lemma newline_not_strip: "\<not> strip_chars newline"
  by (simp add: char_eval)

lemma takeWhile_run: "\<forall>x\<in>set xs. P x \<Longrightarrow> \<not> P y \<Longrightarrow> takeWhile P (xs @ y # ys) = xs"
  by (induction xs) auto

lemma dropWhile_run: "\<forall>x\<in>set xs. P x \<Longrightarrow> \<not> P y \<Longrightarrow> dropWhile P (xs @ y # ys) = y # ys"
  by (induction xs) auto

lemma dropWhile_all: "\<forall>x\<in>set xs. P x \<Longrightarrow> dropWhile P (xs @ ys) = dropWhile P ys"
  by (induction xs) auto

lemma ends_dash_digits_iff: "ends_dash_digits s = dash_digits_suffix s"
proof
  assume a: "ends_dash_digits s"
  let ?r = "rev s"
  from a obtain c cs where dw: "dropWhile is_decimal ?r = c # cs" and c: "c = hyphen"
    and tw: "takeWhile is_decimal ?r \<noteq> []"
    by (auto simp: ends_dash_digits_def Let_def split: list.splits)
  have "?r = takeWhile is_decimal ?r @ hyphen # cs"
    using takeWhile_dropWhile_id [of is_decimal ?r] dw c by simp
  then have "s = rev cs @ hyphen # rev (takeWhile is_decimal ?r)"
    by (metis rev_append rev.simps(2) rev_rev_ident append_assoc append_Cons append_Nil)
  moreover have "list_all is_decimal (rev (takeWhile is_decimal ?r))"
    by (simp add: list_all_iff) (meson set_takeWhileD)
  ultimately show "dash_digits_suffix s"
    unfolding dash_digits_suffix_def using tw by (metis rev_is_Nil_conv)
next
  assume "dash_digits_suffix s"
  then obtain p ds where s: "s = p @ hyphen # ds" and ne: "ds \<noteq> []"
    and dg: "list_all is_decimal ds"
    unfolding dash_digits_suffix_def by blast
  have r: "rev s = rev ds @ hyphen # rev p" using s by simp
  have all: "\<forall>x\<in>set (rev ds). is_decimal x" using dg by (simp add: list_all_iff)
  have tw: "takeWhile is_decimal (rev s) = rev ds"
    unfolding r using all dash_not_digit by (rule takeWhile_run)
  have dw: "dropWhile is_decimal (rev s) = hyphen # rev p"
    unfolding r using all dash_not_digit by (rule dropWhile_run)
  show "ends_dash_digits s"
    using tw dw ne by (simp add: ends_dash_digits_def Let_def)
qed

lemma rstrip_idem: "rstrip P (rstrip P s) = rstrip P s"
proof -
  have "dropWhile P (dropWhile P xs) = dropWhile P xs" for xs
    by (induction xs) auto
  then show ?thesis by (simp add: rstrip_def)
qed

lemma rstrip_noop: "s \<noteq> [] \<Longrightarrow> \<not> P (last s) \<Longrightarrow> rstrip P s = s"
proof -
  assume "s \<noteq> []" and "\<not> P (last s)"
  then have "rev s \<noteq> []" and "\<not> P (hd (rev s))" by (simp_all add: hd_rev)
  then have "dropWhile P (rev s) = rev s" by (cases "rev s") auto
  then show ?thesis by (simp add: rstrip_def)
qed

lemma rstrip_suffix:
  assumes "list_all P t" and "p = [] \<or> \<not> P (last p)"
  shows "rstrip P (p @ t) = p"
proof -
  have "\<forall>x\<in>set (rev t). P x" using assms(1) by (simp add: list_all_iff)
  then have "dropWhile P (rev t @ rev p) = dropWhile P (rev p)" by (rule dropWhile_all)
  then have "rstrip P (p @ t) = rstrip P p" by (simp add: rstrip_def)
  also have "rstrip P p = p"
  proof (cases "p = []")
    case True
    then show ?thesis by (simp add: rstrip_def)
  next
    case False
    with assms(2) show ?thesis by (simp add: rstrip_noop)
  qed
  finally show ?thesis .
qed

lemma simplify_no_suffix:
  assumes "\<not> dash_digits_suffix s"
  shows "simplify_service_name s = s"
proof (cases "re_search_dash_digits s")
  case False
  then show ?thesis by (simp add: simplify_service_name_def)
next
  case True
  with assms have "s \<noteq> []" and "last s = newline"
    by (auto simp: re_search_dash_digits_def ends_dash_digits_iff)
  then have "rstrip strip_chars s = s"
    using newline_not_strip by (simp add: rstrip_noop)
  then show ?thesis by (simp add: simplify_service_name_def)
qed

lemma simplify_with_suffix:
  "dash_digits_suffix s \<Longrightarrow> simplify_service_name s = rstrip strip_chars s"
  by (simp add: simplify_service_name_def re_search_dash_digits_def ends_dash_digits_iff)

lemma simplify_cases:
  "simplify_service_name s = s \<or> simplify_service_name s = rstrip strip_chars s"
  by (simp add: simplify_service_name_def)

lemma simplify_idem:
  "simplify_service_name (simplify_service_name x) = simplify_service_name x"
proof (cases "re_search_dash_digits x")
  case False
  then show ?thesis by (simp add: simplify_service_name_def)
next
  case True
  then have eq: "simplify_service_name x = rstrip strip_chars x"
    by (simp add: simplify_service_name_def)
  show ?thesis
    using simplify_cases [of "rstrip strip_chars x"] by (auto simp: eq rstrip_idem)
qed

lemma dash_number_strip: "dash_number x \<Longrightarrow> list_all strip_chars x"
  unfolding dash_number_def
  by (auto simp: list_all_iff hyphen_strip_chars is_digit_strip_chars)

lemma dash_numbers_suffix:
  assumes "sufs \<noteq> []" and "list_all dash_number sufs"
  shows "dash_digits_suffix (p @ concat sufs)"
proof -
  from assms(1) have sp: "sufs = butlast sufs @ [last sufs]" by simp
  from assms have "dash_number (last sufs)" by (simp add: list_all_iff)
  then obtain ds where x: "last sufs = hyphen # ds" and ne: "ds \<noteq> []"
    and dg: "list_all is_digit ds"
    unfolding dash_number_def by blast
  have "concat sufs = concat (butlast sufs) @ hyphen # ds"
    using sp x by (metis concat.simps concat_append append_Nil2)
  then have "p @ concat sufs = (p @ concat (butlast sufs)) @ hyphen # ds" by simp
  moreover have "list_all is_decimal ds"
    using dg by (auto simp: list_all_iff is_digit_decimal)
  ultimately show ?thesis unfolding dash_digits_suffix_def using ne by blast
qed

lemmas simplify_eval =
  simplify_service_name_def re_search_dash_digits_def ends_dash_digits_def rstrip_def char_eval

lemma simplify_svc_1_2: "simplify_service_name (ustr ''svc-1-2'') = ustr ''svc''"
  by (simp add: simplify_eval)

lemma simplify_svc: "simplify_service_name (ustr ''svc'') = ustr ''svc''"
  by (simp add: simplify_eval)

lemma no_suffix_svc: "\<not> dash_digits_suffix (ustr ''svc'')"
  unfolding ends_dash_digits_iff [symmetric] by (simp add: ends_dash_digits_def char_eval)

lemma dash_number_1_2: "dash_number (ustr ''-1'')" "dash_number (ustr ''-2'')"
  unfolding dash_number_def by (simp_all add: char_eval)

text \<open>
  A digit that is not an ASCII digit: \<open>\d\<close> matches the Arabic-Indic digit three,
  U+0663, and \<open>rstrip\<close> does not strip it, so \<open>svc-\<close>, that digit and \<open>1\<close> loses only
  the \<open>1\<close>.
\<close>

lemma simplify_arabic_indic:
  "simplify_service_name (ustr ''svc-'' @ [0x663] @ ustr ''1'') = ustr ''svc-'' @ [0x663]"
  by (simp add: simplify_eval)

text \<open>
  C6, as the code has it. Every trailing suffix of a hyphen and ASCII digits goes, not
  only the last: for a name made of a prefix and one or more such suffixes, where the
  prefix is empty or ends in a character that is neither a hyphen nor an ASCII digit,
  the result is the prefix. A name that does not end in a hyphen followed by one or more
  decimal digits is returned as it is.
\<close>

theorem normalize_strips_suffixes:
  "(sufs \<noteq> [] \<and> list_all dash_number sufs \<and> (p = [] \<or> \<not> strip_chars (last p))
      \<longrightarrow> simplify_service_name (p @ concat sufs) = p) \<and>
   (\<not> dash_digits_suffix s \<longrightarrow> simplify_service_name s = s)"
proof -
  have "simplify_service_name (p @ concat sufs) = p"
    if ne: "sufs \<noteq> []" and all: "list_all dash_number sufs"
      and pre: "p = [] \<or> \<not> strip_chars (last p)"
  proof -
    have "list_all strip_chars (concat sufs)"
      using all dash_number_strip by (fastforce simp: list_all_iff)
    then have "rstrip strip_chars (p @ concat sufs) = p" using pre by (rule rstrip_suffix)
    then show ?thesis
      using dash_numbers_suffix [OF ne all, of p] by (simp add: simplify_with_suffix)
  qed
  then show ?thesis using simplify_no_suffix by blast
qed

theorem normalize_strips_suffixes_witness:
  "[ustr ''-1'', ustr ''-2''] \<noteq> [] \<and> list_all dash_number [ustr ''-1'', ustr ''-2''] \<and>
   \<not> strip_chars (last (ustr ''svc'')) \<and>
   simplify_service_name (ustr ''svc'' @ concat [ustr ''-1'', ustr ''-2'']) = ustr ''svc'' \<and>
   \<not> dash_digits_suffix (ustr ''svc'') \<and> simplify_service_name (ustr ''svc'') = ustr ''svc''"
proof -
  have a: "list_all dash_number [ustr ''-1'', ustr ''-2'']"
    by (simp add: dash_number_1_2)
  have b: "\<not> strip_chars (last (ustr ''svc''))"
    by (simp add: char_eval)
  from normalize_strips_suffixes [of "[ustr ''-1'', ustr ''-2'']" "ustr ''svc''" "ustr ''svc''"]
    a b no_suffix_svc
  show ?thesis by simp
qed

text \<open>
  C6 as the specification states it fails: \<open>svc-1-2\<close> ends in the hyphen-and-digits
  suffix \<open>-2\<close>; with that single suffix removed it would be \<open>svc-1\<close>, and the code
  returns \<open>svc\<close>.
\<close>

theorem normalize_single_suffix_counterexample:
  "ends_dash_digits (ustr ''svc-1'' @ ustr ''-2'') \<and>
   simplify_service_name (ustr ''svc-1'' @ ustr ''-2'') = ustr ''svc'' \<and>
   simplify_service_name (ustr ''svc-1'' @ ustr ''-2'') \<noteq> ustr ''svc-1''"
  by (simp add: simplify_eval)

text \<open>C7: normalising twice gives what normalising once gives, for every string.\<close>

theorem normalize_idempotent:
  "simplify_service_name (simplify_service_name x) = simplify_service_name x"
  by (rule simplify_idem)

section \<open>Cache\<close>

lemma cache_file_name_valid:
  "cache_type = ''roles'' \<or> cache_type = ''service_entries'' \<Longrightarrow>
   \<exists>fname. cache_file_name cache_type = Inr fname"
  by (auto simp: cache_file_name_def)

lemmas cache_eval = cache_def cache_file_name_def truthy_def cache_read_def getsize_def

lemma cache_write_then_read:
  assumes "cache_type = ''roles'' \<or> cache_type = ''service_entries''"
    and "truthy data" and "later < now + 3600"
  shows "\<exists>fs'. cache now cache_type (Some data) fs = Inr (None, fs') \<and>
               cache later cache_type None fs' = Inr (Some data, fs')"
proof -
  from assms(1) obtain fname where f: "cache_file_name cache_type = Inr fname"
    using cache_file_name_valid by blast
  let ?fs = "fs(fname \<mapsto> \<lparr>content = Pickled data, mtime = now\<rparr>)"
  have w: "cache now cache_type (Some data) fs = Inr (None, ?fs)"
    using assms(2) by (simp add: cache_def f)
  have "cache_read later fname ?fs = Inr (Some data)"
    using assms(3) by (simp add: cache_read_def getsize_def)
  then have r: "cache later cache_type None ?fs = Inr (Some data, ?fs)"
    by (simp add: cache_def f)
  from w r show ?thesis by blast
qed

lemma cache_falsy_reads:
  "\<not> truthy data \<Longrightarrow> cache now cache_type (Some data) fs = cache now cache_type None fs"
  by (cases "cache_file_name cache_type") (simp_all add: cache_def)

lemma cache_read_keeps_files:
  "cache now cache_type None fs = Inr (r, fs') \<Longrightarrow> fs' = fs"
  by (auto simp: cache_def split: sum.splits)

text \<open>
  C8, as the code has it, a pickle giving back what was written. For a valid cache type
  and a payload that is not empty, writing the payload and then reading the same type
  less than 3600 seconds later gives the payload back, whatever the files held before.
  A payload that is empty is not written: the call is the read of the same type, and
  it leaves the files, and so the value stored before, as they were.
\<close>

theorem cache_round_trip:
  assumes "cache_type = ''roles'' \<or> cache_type = ''service_entries''"
  shows "(truthy data \<and> later < now + 3600 \<longrightarrow>
            (\<exists>fs'. cache now cache_type (Some data) fs = Inr (None, fs') \<and>
                   cache later cache_type None fs' = Inr (Some data, fs'))) \<and>
         (\<not> truthy data \<longrightarrow>
            cache now cache_type (Some data) fs = cache now cache_type None fs \<and>
            (\<forall>r fs'. cache now cache_type (Some data) fs = Inr (r, fs') \<longrightarrow> fs' = fs))"
  using cache_write_then_read [OF assms] cache_falsy_reads [of data now cache_type fs]
    cache_read_keeps_files [of now cache_type fs]
  by auto

theorem cache_round_trip_witness:
  "(\<exists>fs'. cache 100 ''roles'' (Some (RoleList [ustr ''api'', ustr ''web'']))
            [''roles.txt'' \<mapsto> \<lparr>content = Pickled (RoleList [ustr ''old'']), mtime = 0\<rparr>]
          = Inr (None, fs') \<and>
         cache 3100 ''roles'' None fs' = Inr (Some (RoleList [ustr ''api'', ustr ''web'']), fs')) \<and>
   \<not> truthy (RoleList []) \<and>
   cache 100 ''roles'' (Some (RoleList []))
     [''roles.txt'' \<mapsto> \<lparr>content = Pickled (RoleList [ustr ''old'']), mtime = 0\<rparr>]
   = cache 100 ''roles'' None
     [''roles.txt'' \<mapsto> \<lparr>content = Pickled (RoleList [ustr ''old'']), mtime = 0\<rparr>]"
  using cache_round_trip [of "''roles''" "RoleList [ustr ''api'', ustr ''web'']" 3100 100
      "[''roles.txt'' \<mapsto> \<lparr>content = Pickled (RoleList [ustr ''old'']), mtime = 0\<rparr>]"]
    cache_round_trip [of "''roles''" "RoleList []" 100 100
      "[''roles.txt'' \<mapsto> \<lparr>content = Pickled (RoleList [ustr ''old'']), mtime = 0\<rparr>]"]
  by (simp add: truthy_def)

text \<open>
  C8 as stated fails for an empty payload: \<open>if data:\<close> is false for the empty list, so
  nothing is written, the call goes on to read, and the value stored before stays and
  is what a read returns.
\<close>

theorem cache_empty_payload_counterexample:
  "cache 10 ''roles'' (Some (RoleList []))
     [''roles.txt'' \<mapsto> \<lparr>content = Pickled (RoleList [ustr ''old'']), mtime = 0\<rparr>]
   = Inr (Some (RoleList [ustr ''old'']),
          [''roles.txt'' \<mapsto> \<lparr>content = Pickled (RoleList [ustr ''old'']), mtime = 0\<rparr>]) \<and>
   cache 10 ''roles'' None
     [''roles.txt'' \<mapsto> \<lparr>content = Pickled (RoleList [ustr ''old'']), mtime = 0\<rparr>]
   = Inr (Some (RoleList [ustr ''old'']),
          [''roles.txt'' \<mapsto> \<lparr>content = Pickled (RoleList [ustr ''old'']), mtime = 0\<rparr>])"
  by (simp add: cache_eval)




section \<open>Role enumeration\<close>

text \<open>Every call that returns yields \<open>None\<close>, so a forced refresh stores the names of
  the first page, whatever pages follow.\<close>

lemma get_roles_pages_None:
  "get_roles_pages now responses self = Inr (r, self') \<Longrightarrow> r = None"
proof (cases responses)
  case Nil
  then show "get_roles_pages now responses self = Inr (r, self') \<Longrightarrow> r = None" by simp
next
  case (Cons a rest)
  then show "get_roles_pages now responses self = Inr (r, self') \<Longrightarrow> r = None"
    by (cases a) (auto simp: Let_def split: sum.splits prod.splits if_splits)
qed

lemma get_roles_list_None:
  "get_roles_list now responses refresh self = Inr (r, self') \<Longrightarrow> r = None"
  by (auto split: sum.splits prod.splits option.splits if_splits dest: get_roles_pages_None)

lemma get_roles_list_stores_first_page:
  assumes "get_roles_list now (Page role_names cursor # rest) True self = Inr (r, self')"
  shows "roles self' = Some (RoleList role_names)"
proof -
  from assms have p: "get_roles_pages now (Page role_names cursor # rest) self = Inr (r, self')"
    by simp
  show ?thesis
  proof (cases "has_next cursor")
    case False
    with p show ?thesis by (auto simp: Let_def split: sum.splits prod.splits)
  next
    case True
    with p obtain more_data self1 where
      inner: "get_roles_list now rest True self = Inr (more_data, self1)"
      by (auto simp: Let_def split: sum.splits prod.splits)
    then have "more_data = None" by (rule get_roles_list_None)
    with p True inner show ?thesis
      by (auto simp: Let_def split: sum.splits prod.splits)
  qed
qed

text \<open>
  C1 fails on the code. The recursive call for the next page returns \<open>None\<close>, as every
  call does, so \<open>roles.extend(more_data)\<close> never runs, and the outer call stores its own
  page over what the inner call stored: with the pages \<open>[a]\<close> and \<open>[b]\<close> the stored role
  list and the cache hold \<open>[a]\<close>, not \<open>[a, b]\<close>.
\<close>

theorem get_roles_list_keeps_first_page:
  "get_roles_list 0 [Page [ustr ''a''] (Some (ustr ''page-2'')), Page [ustr ''b''] None] True
     \<lparr>roles = None, service_entries = Map.empty, cache_files = Map.empty\<rparr>
   = Inr (None, \<lparr>roles = Some (RoleList [ustr ''a'']), service_entries = Map.empty,
      cache_files = [''roles.txt'' \<mapsto> \<lparr>content = Pickled (RoleList [ustr ''a'']), mtime = 0\<rparr>]\<rparr>)"
  by (simp add: cache_def cache_file_name_def truthy_def Let_def has_next_def ustr_def)

section \<open>Adjacency relation\<close>

lemma adjacency_empty: "adjacency Map.empty = {}"
  by (simp add: adjacency_def)

lemma adjacency_add_backend:
  "adjacency (add_backend role backend se) = insert (role, backend) (adjacency se)"
  by (auto simp: adjacency_def add_backend_def split: option.splits if_splits)

lemma dom_add_backend: "dom (add_backend role backend se) = insert role (dom se)"
  by (simp add: add_backend_def)

lemma adjacency_fold_add_backend:
  "adjacency (fold (add_backend role) bs se) = adjacency se \<union> {role} \<times> set bs"
  by (induction bs arbitrary: se) (auto simp: adjacency_add_backend)

lemma dom_fold_add_backend:
  "dom (fold (add_backend role) bs se) = (if bs = [] then dom se else insert role (dom se))"
  by (induction bs arbitrary: se) (auto simp: dom_add_backend)

lemma adjacency_add_rule:
  "adjacency (add_rule source_role rule se) =
     insert (simplify_service_name (ingress_role rule), source_role) (adjacency se)"
  by (simp add: add_rule_def Let_def adjacency_add_backend)

lemma adjacency_fold_add_rule:
  "adjacency (fold (add_rule source_role) items se) =
     adjacency se \<union> (\<lambda>rule. (simplify_service_name (ingress_role rule), source_role)) ` set items"
  by (induction items arbitrary: se) (auto simp: adjacency_add_rule)

text \<open>
  Over the pages of a role, every edge that \<open>fetch_role_rules\<close> adds points at that role,
  and no edge goes. When the cursor of a page does not format, the pages after it are not
  asked for: the rules of the pages so far are in, and the role is reported as not done.
\<close>

lemma fetch_role_rules_adjacency:
  "adjacency se \<subseteq> adjacency (snd (snd (fetch_role_rules percent url source_role responses se))) \<and>
   adjacency (snd (snd (fetch_role_rules percent url source_role responses se)))
     \<subseteq> adjacency se \<union> UNIV \<times> {source_role}"
proof (induction percent url source_role responses se rule: fetch_role_rules.induct)
  case (1 percent url source_role se)
  show ?case by simp
next
  case (2 percent url source_role rest se)
  show ?case by simp
next
  case (3 percent url source_role items cursor rest se)
  let ?se = "fold (add_rule source_role) items se"
  have step: "adjacency se \<subseteq> adjacency ?se \<and> adjacency ?se \<subseteq> adjacency se \<union> UNIV \<times> {source_role}"
    by (auto simp: adjacency_fold_add_rule)
  show ?case
  proof (cases "percent url source_role")
    case None
    then show ?thesis by simp
  next
    case (Some a)
    show ?thesis
    proof (cases "\<exists>next_url. cursor = Some next_url \<and> next_url \<noteq> []")
      case False
      with Some step show ?thesis by (auto simp: Let_def split: option.splits)
    next
      case True
      then obtain next_url where c: "cursor = Some next_url" "next_url \<noteq> []" by blast
      from "3.IH" [OF Some refl c] step Some c show ?thesis
        by (simp add: Let_def) blast
    qed
  qed
qed

lemma fetch_role_rules_cursor_raises:
  assumes "percent url source_role = Some address" and "next_url \<noteq> []"
    and "percent next_url source_role = None"
  shows "fetch_role_rules percent url source_role (Page items (Some next_url) # rest) se
         = (False, next_url, fold (add_rule source_role) items se)"
proof (cases rest)
  case Nil
  with assms show ?thesis by (simp add: Let_def)
next
  case (Cons r rest')
  with assms show ?thesis by (cases r) (simp_all add: Let_def)
qed

lemma simplify_web_1: "simplify_service_name (ustr ''web-1'') = ustr ''web''"
  by (simp add: simplify_eval)

lemma simplify_api_2: "simplify_service_name (ustr ''api-2'') = ustr ''api''"
  by (simp add: simplify_eval)

text \<open>
  C2, as the code has it. A rule with ingress role \<open>R\<close> fetched for the role \<open>S\<close> adds
  the edge from the normalised \<open>R\<close> to \<open>S\<close> to the adjacency relation and nothing else:
  \<open>S\<close> joins the set stored under the normalised \<open>R\<close>. The edge from \<open>S\<close> to the
  normalised \<open>R\<close> is there afterwards only if it was there before, unless \<open>S\<close> is the
  normalised \<open>R\<close>, where the two edges are one.
\<close>

theorem firewall_rule_inverted:
  "adjacency (add_rule source_role rule se) =
     insert (simplify_service_name (ingress_role rule), source_role) (adjacency se) \<and>
   backends_of (add_rule source_role rule se) (simplify_service_name (ingress_role rule)) =
     insert source_role (backends_of se (simplify_service_name (ingress_role rule))) \<and>
   (source_role \<noteq> simplify_service_name (ingress_role rule) \<longrightarrow>
      ((source_role, simplify_service_name (ingress_role rule))
          \<in> adjacency (add_rule source_role rule se)
        \<longleftrightarrow> (source_role, simplify_service_name (ingress_role rule)) \<in> adjacency se))"
  by (auto simp: adjacency_add_rule)
    (simp_all add: add_rule_def Let_def add_backend_def backends_of_def)

theorem firewall_rule_inverted_witness:
  "ustr ''web'' \<noteq> simplify_service_name (ingress_role \<lparr>ingress_role = ustr ''api-2''\<rparr>) \<and>
   adjacency (add_rule (ustr ''web'') \<lparr>ingress_role = ustr ''api-2''\<rparr> Map.empty) = {(ustr ''api'', ustr ''web'')} \<and>
   (ustr ''web'', ustr ''api'') \<notin> adjacency (add_rule (ustr ''web'') \<lparr>ingress_role = ustr ''api-2''\<rparr> Map.empty)"
  using firewall_rule_inverted [of "ustr ''web''" "\<lparr>ingress_role = ustr ''api-2''\<rparr>" Map.empty]
  by (simp add: simplify_api_2 adjacency_empty)

text \<open>
  C2 as stated fails where the role is its own ingress role up to normalisation: the rule
  \<open>web-1\<close> fetched for \<open>web\<close> adds the edge from \<open>web\<close> to the normalised \<open>web-1\<close>.
\<close>

theorem firewall_self_rule_counterexample:
  "(ustr ''web'', simplify_service_name (ingress_role \<lparr>ingress_role = ustr ''web-1''\<rparr>))
     \<in> adjacency (add_rule (ustr ''web'') \<lparr>ingress_role = ustr ''web-1''\<rparr> Map.empty) \<and>
   (ustr ''web'', simplify_service_name (ingress_role \<lparr>ingress_role = ustr ''web-1''\<rparr>))
     \<notin> adjacency Map.empty"
  by (simp add: adjacency_add_rule adjacency_empty simplify_web_1)

lemma adjacency_add_service:
  "adjacency (add_service service se) =
     adjacency se \<union> {simplify_service_name (service_name service)} \<times>
       (case backend_names service of None \<Rightarrow> {} | Some bs \<Rightarrow> set bs)"
  by (simp add: add_service_def Let_def adjacency_fold_add_backend split: option.splits)

lemma dom_add_service:
  "dom (add_service service se) \<subseteq> insert (simplify_service_name (service_name service)) (dom se)"
  by (auto simp: add_service_def Let_def dom_fold_add_backend split: option.splits if_splits)

lemma new_keys_fold_add_service:
  "k \<in> dom (fold add_service items se) \<Longrightarrow> k \<notin> dom se \<Longrightarrow>
   \<exists>service \<in> set items. k = simplify_service_name (service_name service)"
proof (induction items arbitrary: se)
  case Nil
  then show ?case by simp
next
  case (Cons a items)
  show ?case
  proof (cases "k \<in> dom (add_service a se)")
    case True
    with Cons.prems(2) dom_add_service [of a se] show ?thesis by auto
  next
    case False
    with Cons.IH [of "add_service a se"] Cons.prems(1) show ?thesis by auto
  qed
qed

lemma adjacency_fold_add_service:
  "adjacency (fold add_service items se) =
     adjacency se \<union> (\<Union>service \<in> set items. {simplify_service_name (service_name service)} \<times>
       (case backend_names service of None \<Rightarrow> {} | Some bs \<Rightarrow> set bs))"
  by (induction items arbitrary: se) (auto simp: adjacency_add_service)

text \<open>
  C4, as the code has it. Over a page of service entries, every key the step adds to
  the adjacency relation is a normalised role name, and the edges it adds are those from
  the normalised role name of an entry to each of its backend names as the entry gives
  them: the backend names are not normalised.
\<close>

theorem service_entries_keys_normalized:
  "(\<forall>k \<in> dom (fold add_service items se) - dom se. normalized k) \<and>
   adjacency (fold add_service items se) =
     adjacency se \<union> (\<Union>service \<in> set items. {simplify_service_name (service_name service)} \<times>
       (case backend_names service of None \<Rightarrow> {} | Some bs \<Rightarrow> set bs))"
proof -
  have "normalized k" if "k \<in> dom (fold add_service items se) - dom se" for k
    using new_keys_fold_add_service [of k items se] that
    by (auto simp: normalized_def simplify_idem)
  then show ?thesis using adjacency_fold_add_service by blast
qed

lemma add_service_a_1:
  "add_service \<lparr>service_name = ustr ''a-1'', backends = Some [Some (ustr ''b-2'')]\<rparr> Map.empty
   = [ustr ''a'' \<mapsto> {ustr ''b-2''}]"
  by (simp add: add_service_def backend_names_def add_backend_def simplify_eval)

theorem service_entries_keys_normalized_witness:
  "ustr ''a'' \<in> dom (fold add_service [\<lparr>service_name = ustr ''a-1'', backends = Some [Some (ustr ''b-2'')]\<rparr>]
              Map.empty) - dom (Map.empty :: entries) \<and>
   normalized (ustr ''a'')"
  using service_entries_keys_normalized
    [of "[\<lparr>service_name = ustr ''a-1'', backends = Some [Some (ustr ''b-2'')]\<rparr>]" Map.empty]
  by (simp add: add_service_a_1)

text \<open>
  C4 as stated fails for the members: the entry \<open>a-1\<close> with the backend \<open>b-2\<close> puts
  \<open>b-2\<close> under the key \<open>a\<close>, and \<open>b-2\<close> is not in normalised form.
\<close>

theorem backend_not_normalized_counterexample:
  "fold add_service [\<lparr>service_name = ustr ''a-1'', backends = Some [Some (ustr ''b-2'')]\<rparr>] Map.empty
     = [ustr ''a'' \<mapsto> {ustr ''b-2''}] \<and>
   \<not> normalized (ustr ''b-2'')"
  by (simp add: add_service_a_1) (simp add: normalized_def simplify_eval)

lemma get_backends_fst: "fst (get_backends service se) = backends_of se (simplify_service_name service)"
  by (simp add: get_backends_def Let_def backends_of_def split: option.splits)

lemma get_backends_snd: "backends_of (snd (get_backends service se)) = backends_of se"
  by (auto simp: get_backends_def Let_def backends_of_def fun_eq_iff split: option.splits)

text \<open>
  C10, as the code has it. \<open>get_backends\<close> leaves the set of backends of every role as
  it was, an absent role counting as the empty set, and returns the set of the
  normalised role. The key set gains the normalised role: for a role that has an entry
  the relation is unchanged, and for a role without one the \<open>defaultdict\<close> stores the
  empty set under its normalised name.
\<close>

theorem get_backends_frame:
  "backends_of (snd (get_backends service se)) = backends_of se \<and>
   fst (get_backends service se) = backends_of se (simplify_service_name service) \<and>
   dom (snd (get_backends service se)) = insert (simplify_service_name service) (dom se) \<and>
   (simplify_service_name service \<in> dom se \<longrightarrow> snd (get_backends service se) = se) \<and>
   (simplify_service_name service \<notin> dom se \<longrightarrow>
      snd (get_backends service se) = se(simplify_service_name service \<mapsto> {}))"
  by (auto simp: get_backends_def Let_def backends_of_def fun_eq_iff split: option.splits)

lemma simplify_main_svc: "simplify_service_name (ustr ''main-svc'') = ustr ''main-svc''"
  by (simp add: simplify_eval)

lemma simplify_svc_nodeps: "simplify_service_name (ustr ''svc-nodeps'') = ustr ''svc-nodeps''"
  by (simp add: simplify_eval)

theorem get_backends_frame_witness:
  "simplify_service_name (ustr ''main-svc'') \<in> dom [ustr ''main-svc'' \<mapsto> {ustr ''first-dep'', ustr ''second-dep''}] \<and>
   snd (get_backends (ustr ''main-svc'') [ustr ''main-svc'' \<mapsto> {ustr ''first-dep'', ustr ''second-dep''}])
     = [ustr ''main-svc'' \<mapsto> {ustr ''first-dep'', ustr ''second-dep''}] \<and>
   simplify_service_name (ustr ''svc-nodeps'') \<notin> dom [ustr ''main-svc'' \<mapsto> {ustr ''first-dep'', ustr ''second-dep''}] \<and>
   snd (get_backends (ustr ''svc-nodeps'') [ustr ''main-svc'' \<mapsto> {ustr ''first-dep'', ustr ''second-dep''}])
     = [ustr ''main-svc'' \<mapsto> {ustr ''first-dep'', ustr ''second-dep''}, ustr ''svc-nodeps'' \<mapsto> {}]"
  using get_backends_frame [of "ustr ''main-svc''" "[ustr ''main-svc'' \<mapsto> {ustr ''first-dep'', ustr ''second-dep''}]"]
    get_backends_frame [of "ustr ''svc-nodeps''" "[ustr ''main-svc'' \<mapsto> {ustr ''first-dep'', ustr ''second-dep''}]"]
  by (simp add: simplify_main_svc simplify_svc_nodeps)

text \<open>
  C10 as stated fails for a role with no entry: after \<open>get_backends\<close> for \<open>svc-nodeps\<close>
  the key set is not the one before the call.
\<close>

theorem get_backends_adds_key_counterexample:
  "dom (snd (get_backends (ustr ''svc-nodeps'') [ustr ''main-svc'' \<mapsto> {ustr ''first-dep'', ustr ''second-dep''}]))
   \<noteq> dom [ustr ''main-svc'' \<mapsto> {ustr ''first-dep'', ustr ''second-dep''}]"
  by (simp add: get_backends_def Let_def simplify_svc_nodeps)

section \<open>Graph building\<close>

lemma re_match_lit_iff: "re_match_lit pat s \<longleftrightarrow> (\<exists>after. s = pat @ after)"
  by (induction pat s rule: re_match_lit.induct) auto

lemma contains_Cons:
  "contains pat (c # cs) \<longleftrightarrow> (\<exists>after. c # cs = pat @ after) \<or> contains pat cs"
proof
  assume "contains pat (c # cs)"
  then obtain before after where e: "c # cs = before @ pat @ after"
    unfolding contains_def by blast
  show "(\<exists>after. c # cs = pat @ after) \<or> contains pat cs"
  proof (cases before)
    case Nil
    with e show ?thesis by auto
  next
    case (Cons b bs)
    with e have "cs = bs @ pat @ after" by simp
    then show ?thesis unfolding contains_def by blast
  qed
next
  assume "(\<exists>after. c # cs = pat @ after) \<or> contains pat cs"
  then show "contains pat (c # cs)"
  proof
    assume "\<exists>after. c # cs = pat @ after"
    then obtain after where "c # cs = [] @ pat @ after" by auto
    then show ?thesis unfolding contains_def by blast
  next
    assume "contains pat cs"
    then obtain before after where "cs = before @ pat @ after"
      unfolding contains_def by blast
    then have "c # cs = (c # before) @ pat @ after" by simp
    then show ?thesis unfolding contains_def by blast
  qed
qed

lemma re_search_lit_iff: "re_search_lit pat s \<longleftrightarrow> contains pat s"
proof (induction s)
  case Nil
  show ?case by (auto simp: re_match_lit_iff contains_def)
next
  case (Cons c cs)
  then show ?case by (simp add: contains_Cons re_match_lit_iff)
qed

lemma dbre_search_iff: "dbre_search s \<longleftrightarrow> contains (ustr ''mysql'') s \<or> contains (ustr ''redis'') s"
  by (simp add: dbre_search_def re_search_lit_iff)

lemma edges_add_edge:
  "edges (add_edge u v g) = (if (u, v) \<in> set (edges g) then edges g else edges g @ [(u, v)])"
  by (simp add: add_edge_def add_node_def has_edge_def Let_def)

lemma admissible_empty: "admissible empty_graph"
  by (simp add: admissible_def empty_graph_def)

lemma admissible_add_edge:
  assumes "admissible g" and "v \<noteq> u" and "\<not> has_edge u v g" and "\<not> has_edge v u g"
    and "\<not> dbre_search u" and "\<not> dbre_search v"
  shows "admissible (add_edge u v g)"
  using assms by (auto simp: admissible_def edges_add_edge has_edge_def)

lemma build_graph_admissible:
  "build_graph iter depth service graph se = Inr (g', se') \<Longrightarrow>
     admissible (case graph of None \<Rightarrow> empty_graph | Some g \<Rightarrow> g) \<Longrightarrow> admissible g'"
  "build_graph_loop iter depth service deps g se = Inr (g', se') \<Longrightarrow>
     admissible g \<Longrightarrow> admissible g'"
proof (induction iter depth service graph se and iter depth service deps g se
    arbitrary: g' se' and g' se' rule: build_graph_build_graph_loop.induct)
  case (1 iter service graph se)
  then show ?case by simp
next
  case (2 iter depth service graph se)
  obtain dependencies se1 where gb: "get_backends service se = (dependencies, se1)"
    by (cases "get_backends service se")
  from "2.prems"(1) have
    "build_graph_loop iter depth service (iter dependencies)
       (case graph of None \<Rightarrow> empty_graph | Some g \<Rightarrow> g) se1 = Inr (g', se')"
    by (simp add: gb)
  then show ?case
    using "2.IH" [OF refl gb [symmetric] refl] "2.prems"(2) by blast
next
  case (3 iter depth service graph se)
  then show ?case by simp
next
  case (4 iter depth service dependency rest graph se)
  show ?case
  proof (cases "dependency = service
      \<or> (has_edge service dependency graph \<or> has_edge dependency service graph)
      \<or> (dbre_search service \<or> dbre_search dependency)")
    case True
    with "4.prems" "4.IH"(1,2,3) show ?thesis by (auto split: if_splits)
  next
    case False
    with "4.prems"(1) obtain g1 se1 where
      inner: "build_graph iter depth dependency (Some (add_edge service dependency graph)) se
                = Inr (g1, se1)"
      and outer: "build_graph_loop iter depth service rest g1 se1 = Inr (g', se')"
      by (auto split: sum.splits)
    from False "4.prems"(2) have "admissible (add_edge service dependency graph)"
      by (intro admissible_add_edge) auto
    with "4.IH"(4) [OF _ _ _ inner] False have "admissible g1" by simp
    with "4.IH"(5) [OF _ _ _ inner refl outer] False show ?thesis by simp
  qed
qed

lemma built_admissible: "built iter se0 p \<Longrightarrow> admissible (fst p)"
proof (induction rule: built.induct)
  case built_start
  show ?case by (simp add: admissible_empty)
next
  case (built_step g se depth seed g' se')
  then show ?case using build_graph_admissible(1) [of iter depth seed "Some g" se g' se'] by simp
qed

lemma admissible_spec:
  "admissible g \<Longrightarrow> no_self_loop g \<and> no_antiparallel g \<and> no_database_edge g"
  unfolding admissible_def no_self_loop_def no_antiparallel_def no_database_edge_def
  by (fastforce simp: dbre_search_iff)

text \<open>
  C3. A graph that \<open>build_graph\<close> returns, started from a graph built by earlier calls
  from the empty graph, has no edge from a node to itself, has for no two nodes the
  edges in both directions, and has no edge with an endpoint whose name contains
  \<open>mysql\<close> or \<open>redis\<close>; this holds for every adjacency relation, every seed role, every
  order of running through the sets and every depth.
\<close>

theorem build_graph_invariant:
  assumes "built iter se0 (g, se)"
    and "build_graph iter depth seed (Some g) se = Inr (g', se')"
  shows "no_self_loop g' \<and> no_antiparallel g' \<and> no_database_edge g'"
proof -
  have "built iter se0 (g', se')" using assms by (rule built_step)
  then have "admissible g'" using built_admissible by fastforce
  then show ?thesis by (rule admissible_spec)
qed

lemma simplify_A: "simplify_service_name (ustr ''A'') = ustr ''A''" "simplify_service_name (ustr ''B'') = ustr ''B''"
  by (simp_all add: simplify_eval)

lemma dbre_A: "\<not> dbre_search (ustr ''A'')" "\<not> dbre_search (ustr ''B'')"
  by (simp_all add: dbre_search_def ustr_def)

lemma build_two_cycle:
  "build_graph (in_order [ustr ''A'', ustr ''B'']) (Suc (Suc 0)) (ustr ''A'') (Some empty_graph) two_cycle
   = Inr (\<lparr>nodes = [ustr ''A'', ustr ''B''], edges = [(ustr ''A'', ustr ''B'')]\<rparr>, two_cycle)"
  by (simp add: get_backends_def simplify_A dbre_A two_cycle_def in_order_def has_edge_def
      add_edge_def add_node_def empty_graph_def Let_def)

theorem build_graph_invariant_witness:
  "built (in_order [ustr ''A'', ustr ''B'']) two_cycle (empty_graph, two_cycle) \<and>
   build_graph (in_order [ustr ''A'', ustr ''B'']) (Suc (Suc 0)) (ustr ''A'') (Some empty_graph) two_cycle
     = Inr (\<lparr>nodes = [ustr ''A'', ustr ''B''], edges = [(ustr ''A'', ustr ''B'')]\<rparr>, two_cycle) \<and>
   no_self_loop \<lparr>nodes = [ustr ''A'', ustr ''B''], edges = [(ustr ''A'', ustr ''B'')]\<rparr> \<and>
   no_antiparallel \<lparr>nodes = [ustr ''A'', ustr ''B''], edges = [(ustr ''A'', ustr ''B'')]\<rparr> \<and>
   no_database_edge \<lparr>nodes = [ustr ''A'', ustr ''B''], edges = [(ustr ''A'', ustr ''B'')]\<rparr>"
  using build_graph_invariant [OF built_start build_two_cycle] built_start build_two_cycle
  by blast

subsection \<open>Returning\<close>

text \<open>
  Every nested call follows an edge that was not in the graph before, and the edges come
  from the adjacency relation, so for a finite relation the nesting is bounded: with a
  depth above the number of candidate edges \<open>build_graph\<close> returns a graph, also when
  the relation has cycles of any length.
\<close>

lemma candidates_cong: "backends_of se' = backends_of se \<Longrightarrow> candidates se' N = candidates se N"
  by (simp add: candidates_def)

lemma targets_cong: "backends_of se' = backends_of se \<Longrightarrow> targets se' = targets se"
  by (simp add: targets_def)

lemma card_candidates_less:
  assumes "finite (candidates se N)" and "e \<in> candidates se N" and "e \<notin> E" 
  shows "card (candidates se N - insert e E) < card (candidates se N - E)"
proof -
  have "candidates se N - insert e E \<subset> candidates se N - E" using assms by auto
  then show ?thesis using assms(1) by (intro psubset_card_mono) auto
qed

lemma card_candidates_mono:
  assumes "finite (candidates se N)" and "E \<subseteq> E'"
  shows "card (candidates se N - E') \<le> card (candidates se N - E)"
  using assms by (intro card_mono) auto

lemma build_graph_total:
  fixes iter :: iteration and N :: "ustring set"
  shows
  "finite (candidates se N) \<Longrightarrow> service \<in> N \<Longrightarrow> targets se \<subseteq> N \<Longrightarrow>
     card (candidates se N - set (edges (case graph of None \<Rightarrow> empty_graph | Some g \<Rightarrow> g))) < depth \<Longrightarrow>
     (\<And>S. set (iter S) \<subseteq> S) \<Longrightarrow>
     \<exists>g' se'. build_graph iter depth service graph se = Inr (g', se') \<and>
        set (edges (case graph of None \<Rightarrow> empty_graph | Some g \<Rightarrow> g)) \<subseteq> set (edges g') \<and>
        backends_of se' = backends_of se"
  "finite (candidates se N) \<Longrightarrow> service \<in> N \<Longrightarrow> targets se \<subseteq> N \<Longrightarrow>
     set deps \<subseteq> backends_of se (simplify_service_name service) \<Longrightarrow>
     card (candidates se N - set (edges g)) \<le> depth \<Longrightarrow>
     (\<And>S. set (iter S) \<subseteq> S) \<Longrightarrow>
     \<exists>g' se'. build_graph_loop iter depth service deps g se = Inr (g', se') \<and>
        set (edges g) \<subseteq> set (edges g') \<and> backends_of se' = backends_of se"
proof (induction iter depth service graph se and iter depth service deps g se
    rule: build_graph_build_graph_loop.induct)
  case (1 iter service graph se)
  then show ?case by simp
next
  case (2 iter depth service graph se)
  let ?g = "case graph of None \<Rightarrow> empty_graph | Some g \<Rightarrow> g"
  obtain dependencies se1 where gb: "get_backends service se = (dependencies, se1)"
    by (cases "get_backends service se")
  have d: "dependencies = backends_of se (simplify_service_name service)"
    using get_backends_fst [of service se] gb by simp
  have s: "backends_of se1 = backends_of se"
    using get_backends_snd [of service se] gb by simp
  have "\<exists>g' se'. build_graph_loop iter depth service (iter dependencies) ?g se1 = Inr (g', se') \<and>
        set (edges ?g) \<subseteq> set (edges g') \<and> backends_of se' = backends_of se1"
  proof (rule "2.IH" [OF refl gb [symmetric] refl])
    show "finite (candidates se1 N)" using "2.prems"(1) by (simp add: candidates_cong [OF s])
    show "service \<in> N" by fact
    show "targets se1 \<subseteq> N" using "2.prems"(3) by (simp add: targets_cong [OF s])
    show "set (iter dependencies) \<subseteq> backends_of se1 (simplify_service_name service)"
      using "2.prems"(5) [of dependencies] d s by simp
    show "card (candidates se1 N - set (edges ?g)) \<le> depth"
      using "2.prems"(4) by (simp add: candidates_cong [OF s])
    show "\<And>S. set (iter S) \<subseteq> S" by fact
  qed
  then show ?case using s by (auto simp: gb)
next
  case (3 iter depth service graph se)
  then show ?case by simp
next
  case (4 iter depth service dependency rest graph se)
  have rest: "set rest \<subseteq> backends_of se (simplify_service_name service)"
    and dep: "dependency \<in> backends_of se (simplify_service_name service)"
    using "4.prems"(4) by auto
  show ?case
  proof (cases "dependency = service
      \<or> (has_edge service dependency graph \<or> has_edge dependency service graph)
      \<or> (dbre_search service \<or> dbre_search dependency)")
    case True
    then consider "dependency = service"
      | "dependency \<noteq> service" "has_edge service dependency graph \<or> has_edge dependency service graph"
      | "dependency \<noteq> service" "\<not> (has_edge service dependency graph \<or> has_edge dependency service graph)"
        "dbre_search service \<or> dbre_search dependency"
      by blast
    then show ?thesis
    proof cases
      case 1
      with "4.IH"(1) [OF 1 "4.prems"(1,2,3) rest "4.prems"(5,6)] show ?thesis by simp
    next
      case 2
      with "4.IH"(2) [OF 2 "4.prems"(1,2,3) rest "4.prems"(5,6)] show ?thesis by simp
    next
      case 3
      with "4.IH"(3) [OF 3 "4.prems"(1,2,3) rest "4.prems"(5,6)] show ?thesis by simp
    qed
  next
    case False
    then have ne: "dependency \<noteq> service"
      and he: "\<not> (has_edge service dependency graph \<or> has_edge dependency service graph)"
      and db: "\<not> (dbre_search service \<or> dbre_search dependency)" by auto
    let ?g = "add_edge service dependency graph"
    have eg: "set (edges ?g) = insert (service, dependency) (set (edges graph))"
      using he by (simp add: edges_add_edge has_edge_def)
    have cand: "(service, dependency) \<in> candidates se N"
      using dep "4.prems"(2) by (simp add: candidates_def)
    have "dependency \<in> N" using dep "4.prems"(3) by (auto simp: targets_def)
    moreover have "card (candidates se N - set (edges ?g)) < depth"
      using card_candidates_less [OF "4.prems"(1) cand, of "set (edges graph)"] he "4.prems"(5)
      by (simp add: eg has_edge_def)
    ultimately obtain g1 se1 where
      inner: "build_graph iter depth dependency (Some ?g) se = Inr (g1, se1)"
      and sub1: "set (edges ?g) \<subseteq> set (edges g1)" and s1: "backends_of se1 = backends_of se"
      using "4.IH"(4) [OF ne he db "4.prems"(1) _ "4.prems"(3) _ "4.prems"(6)] by force
    have "\<exists>g' se'. build_graph_loop iter depth service rest g1 se1 = Inr (g', se') \<and>
        set (edges g1) \<subseteq> set (edges g') \<and> backends_of se' = backends_of se1"
    proof (rule "4.IH"(5) [OF ne he db inner refl])
      show "finite (candidates se1 N)" using "4.prems"(1) by (simp add: candidates_cong [OF s1])
      show "service \<in> N" by fact
      show "targets se1 \<subseteq> N" using "4.prems"(3) by (simp add: targets_cong [OF s1])
      show "set rest \<subseteq> backends_of se1 (simplify_service_name service)" using rest s1 by simp
      have "set (edges graph) \<subseteq> set (edges g1)" using sub1 eg by auto
      from card_candidates_mono [OF "4.prems"(1) this] "4.prems"(5)
      show "card (candidates se1 N - set (edges g1)) \<le> depth"
        by (simp add: candidates_cong [OF s1])
      show "\<And>S. set (iter S) \<subseteq> S" by fact
    qed
    then obtain g' se' where
      outer: "build_graph_loop iter depth service rest g1 se1 = Inr (g', se')"
      and sub2: "set (edges g1) \<subseteq> set (edges g')" and s2: "backends_of se' = backends_of se1"
      by blast
    have "build_graph_loop iter depth service (dependency # rest) graph se = Inr (g', se')"
      using ne he db inner outer by simp
    moreover have "set (edges graph) \<subseteq> set (edges g')" using sub1 sub2 eg by auto
    ultimately show ?thesis using s1 s2 by auto
  qed
qed

lemma targets_adjacency: "targets se = snd ` adjacency se"
  by (force simp: targets_def adjacency_def backends_of_def split: option.splits)

lemma candidates_finite:
  assumes "finite (adjacency se)"
  shows "finite (candidates se (insert seed (targets se)))"
proof -
  have "finite (targets se)" using assms by (simp add: targets_adjacency)
  moreover have "candidates se (insert seed (targets se))
      \<subseteq> insert seed (targets se) \<times> targets se"
    by (auto simp: candidates_def targets_def)
  ultimately show ?thesis by (meson finite_SigmaI finite_insert finite_subset)
qed

lemma build_graph_returns:
  assumes "finite (adjacency se)" and "\<And>S. set (iter S) \<subseteq> S"
  shows "\<exists>g' se'. build_graph iter (Suc (card (candidates se (insert seed (targets se)))))
           seed graph se = Inr (g', se')"
proof -
  let ?C = "candidates se (insert seed (targets se))"
  let ?g = "case graph of None \<Rightarrow> empty_graph | Some g \<Rightarrow> g"
  have f: "finite ?C" using assms(1) by (rule candidates_finite)
  then have "card (?C - set (edges ?g)) \<le> card ?C" by (intro card_mono) auto
  then have "card (?C - set (edges ?g)) < Suc (card ?C)" by simp
  from build_graph_total(1) [OF f _ _ this assms(2)] show ?thesis by blast
qed

subsection \<open>The example of the tests\<close>

lemma simplify_deps:
  "simplify_service_name (ustr ''first-dep'') = ustr ''first-dep''"
  "simplify_service_name (ustr ''second-dep'') = ustr ''second-dep''"
  by (simp_all add: simplify_eval)

lemma dbre_deps: "\<not> dbre_search (ustr ''main-svc'')" "\<not> dbre_search (ustr ''first-dep'')"
  "\<not> dbre_search (ustr ''second-dep'')"
  by (simp_all add: dbre_search_def ustr_def)

lemma build_graph_test:
  "build_graph (in_order [ustr ''first-dep'', ustr ''second-dep'']) (Suc (Suc 0)) (ustr ''main-svc'') None test_entries
   = Inr (\<lparr>nodes = [ustr ''main-svc'', ustr ''first-dep'', ustr ''second-dep''],
           edges = [(ustr ''main-svc'', ustr ''first-dep''), (ustr ''main-svc'', ustr ''second-dep'')]\<rparr>,
          test_entries(ustr ''first-dep'' \<mapsto> {}, ustr ''second-dep'' \<mapsto> {}))"
  by (simp add: get_backends_def simplify_main_svc simplify_deps dbre_deps test_entries_def
      in_order_def has_edge_def add_edge_def add_node_def empty_graph_def Let_def)

section \<open>Pruning\<close>

lemma fold_remove_node:
  "fold remove_node rs g = without g (set rs)"
proof (induction rs arbitrary: g)
  case Nil
  show ?case by (simp add: without_def)
next
  case (Cons r rs)
  have "fold remove_node (r # rs) g = without (remove_node r g) (set rs)"
    using Cons by simp
  also have "\<dots> = without g (set (r # rs))"
    by (auto simp: without_def remove_node_def removeAll_filter_not_eq intro!: filter_cong)
  finally show ?case .
qed

text \<open>
  C5. The first pass of \<open>clean_graph\<close> removes exactly the nodes whose degree in the
  given graph is above the maximum, with their edges; the second removes from that graph
  exactly the nodes whose degree, counted in it, is at most the minimum. With the
  minimum 0 and the maximum 1, a node of degree 3 is gone after the first pass, and a
  node left with degree 0 by the first pass is gone after the second.
\<close>

theorem clean_graph_two_passes:
  "remove_above g max_degree = without g (exceeding g max_degree) \<and>
   clean_graph g min_degree max_degree =
     without (remove_above g max_degree) (not_exceeding (remove_above g max_degree) min_degree) \<and>
   (x \<in> set (nodes g) \<and> degree g x = 3 \<longrightarrow> x \<notin> set (nodes (remove_above g 1))) \<and>
   (degree (remove_above g 1) y = 0 \<longrightarrow> y \<notin> set (nodes (clean_graph g 0 1)))"
proof -
  have a: "remove_above g m = without g (exceeding g m)" for m
    by (simp add: remove_above_def fold_remove_node exceeding_def)
  have b: "clean_graph g lo hi = without (remove_above g hi) (not_exceeding (remove_above g hi) lo)"
    for lo hi
    by (simp add: clean_graph_def remove_upto_def fold_remove_node not_exceeding_def)
  have c: "x \<notin> set (nodes (remove_above g 1))" if "x \<in> set (nodes g)" "degree g x = 3"
    using that unfolding a by (simp add: without_def exceeding_def)
  have d: "y \<notin> set (nodes (clean_graph g 0 1))" if "degree (remove_above g 1) y = 0"
    using that unfolding b by (simp add: without_def not_exceeding_def)
  from a b c d show ?thesis by blast
qed

lemma hub_pass1:
  "remove_above hub 1 = \<lparr>nodes = [ustr ''Y'', ustr ''C'', ustr ''D''], edges = [(ustr ''C'', ustr ''D'')]\<rparr>"
  by (simp add: remove_above_def hub_def degree_def remove_node_def)

lemma hub_clean:
  "clean_graph hub 0 1 = \<lparr>nodes = [ustr ''C'', ustr ''D''], edges = [(ustr ''C'', ustr ''D'')]\<rparr>"
  by (simp add: clean_graph_def hub_pass1) (simp add: remove_upto_def degree_def remove_node_def)

theorem clean_graph_two_passes_witness:
  "ustr ''X'' \<in> set (nodes hub) \<and> degree hub (ustr ''X'') = 3 \<and>
   ustr ''X'' \<notin> set (nodes (remove_above hub 1)) \<and>
   degree (remove_above hub 1) (ustr ''Y'') = 0 \<and> ustr ''Y'' \<notin> set (nodes (clean_graph hub 0 1)) \<and>
   clean_graph hub 0 1 = \<lparr>nodes = [ustr ''C'', ustr ''D''], edges = [(ustr ''C'', ustr ''D'')]\<rparr>"
proof -
  have x: "ustr ''X'' \<in> set (nodes hub) \<and> degree hub (ustr ''X'') = 3"
    by (simp add: hub_def degree_def)
  have y: "degree (remove_above hub 1) (ustr ''Y'') = 0"
    by (simp add: hub_pass1 degree_def)
  have t: "(ustr ''X'' \<in> set (nodes hub) \<and> degree hub (ustr ''X'') = 3
              \<longrightarrow> (ustr ''X'') \<notin> set (nodes (remove_above hub 1))) \<and>
           (degree (remove_above hub 1) (ustr ''Y'') = 0
              \<longrightarrow> (ustr ''Y'') \<notin> set (nodes (clean_graph hub 0 1)))"
    using clean_graph_two_passes [of hub 1 0 "ustr ''X''" "ustr ''Y''"] by blast
  from t x y hub_clean show ?thesis by blast
qed

end
